theory Spec2Isabelle
  imports Main "HOL-Library.Word"
begin

section \<open>Buffers and the file under the pager\<close>

text \<open>
  A Node \<open>Buffer\<close> is a list of bytes. Buffers are modelled by value: the one place where
  the source mutates a buffer that the cache also holds (\<open>allocPage\<close> writing the new total
  into the header buffer returned by \<open>readPage(0)\<close>) is written out as an update of the
  cache entry of page 0. Where a caller has stored that same buffer object under another
  page id as well, the source's write shows in that entry too and the model's does not; the
  value returned, the header and the new page are the same in both.
  Page ids and file positions are natural numbers; a file position is a safe integer of
  JavaScript up to \<open>MAX_SAFE_INTEGER\<close>, so \<open>pageId * PAGE_SIZE\<close> is one for page ids
  below \<open>2^41\<close>.
\<close>

type_synonym byte = "8 word"
type_synonym buffer = "byte list"
type_synonym page_id = nat

datatype error =
    BufferSize          \<comment> \<open>\<open>new Error("Buffer must be 4KB")\<close>\<close>
  | BadDescriptor       \<comment> \<open>an \<open>fs\<close> call on \<open>fd = null\<close>\<close>
  | OutOfRange          \<comment> \<open>\<open>RangeError\<close> of a Buffer or \<open>fs\<close> call\<close>
  | EOF                 \<comment> \<open>an error whose code is \<open>'EOF'\<close>\<close>
  | AccessDenied string \<comment> \<open>the error thrown by \<open>SecurityManager.check\<close>\<close>

definition PAGE_SIZE :: nat where
  "PAGE_SIZE = 4096"

definition MAGIC :: string where
  "MAGIC = ''WOWO''"

definition MAX_SAFE_INTEGER :: nat where
  "MAX_SAFE_INTEGER = 2 ^ 53 - 1"

definition Buffer_alloc :: "nat \<Rightarrow> buffer" where
  "Buffer_alloc n = replicate n 0"

text \<open>\<open>buf.write(str, offset)\<close>: the bytes of the string, as many as fit.\<close>

definition Buffer_write :: "buffer \<Rightarrow> string \<Rightarrow> nat \<Rightarrow> buffer" where
  "Buffer_write buf str offset =
     (let bytes = take (length buf - offset) (map of_char str)
      in take offset buf @ bytes @ drop (offset + length bytes) buf)"

definition readUInt32LE :: "buffer \<Rightarrow> nat \<Rightarrow> error + nat" where
  "readUInt32LE buf offset =
     (if length buf < offset + 4 then Inl OutOfRange
      else Inr (unat (buf ! offset) + unat (buf ! (offset + 1)) * 2 ^ 8
                + unat (buf ! (offset + 2)) * 2 ^ 16 + unat (buf ! (offset + 3)) * 2 ^ 24))"

definition readUInt16LE :: "buffer \<Rightarrow> nat \<Rightarrow> error + nat" where
  "readUInt16LE buf offset =
     (if length buf < offset + 2 then Inl OutOfRange
      else Inr (unat (buf ! offset) + unat (buf ! (offset + 1)) * 2 ^ 8))"

definition writeUInt32LE :: "buffer \<Rightarrow> nat \<Rightarrow> nat \<Rightarrow> error + buffer" where
  "writeUInt32LE buf v offset =
     (if 2 ^ 32 \<le> v then Inl OutOfRange
      else if length buf < offset + 4 then Inl OutOfRange
      else Inr (buf[offset := of_nat v, offset + 1 := of_nat (v div 2 ^ 8),
                    offset + 2 := of_nat (v div 2 ^ 16), offset + 3 := of_nat (v div 2 ^ 24)]))"

definition writeUInt16LE :: "buffer \<Rightarrow> nat \<Rightarrow> nat \<Rightarrow> error + buffer" where
  "writeUInt16LE buf v offset =
     (if 2 ^ 16 \<le> v then Inl OutOfRange
      else if length buf < offset + 2 then Inl OutOfRange
      else Inr (buf[offset := of_nat v, offset + 1 := of_nat (v div 2 ^ 8)]))"

text \<open>
  The file is its byte contents, and an open descriptor has a current position in it.
  \<open>written f pos b\<close> is the file \<open>f\<close> after the bytes \<open>b\<close> were written at position
  \<open>pos\<close>, a gap after the old end filled with zero bytes.

  \<open>fs.writeSync(fd, buf, off, len, pos)\<close> writes \<open>len\<close> bytes of \<open>buf\<close>: at position
  \<open>pos\<close> when \<open>pos\<close> is a safe integer, leaving the descriptor's position as it is;
  otherwise Node passes no position on, and the bytes go to the descriptor's current
  position, which moves past them. The result is the file and the descriptor's position.

  \<open>fs.readSync(fd, buf, off, len, pos)\<close> raises a \<open>RangeError\<close> when \<open>pos\<close> is not a
  safe integer; otherwise it copies the bytes the file has from \<open>pos\<close> on, at most
  \<open>len\<close>, into \<open>buf\<close> and leaves the rest of \<open>buf\<close> as it was (at or after the end of
  the file it reads nothing and does not raise).

  Both raise on a descriptor that is \<open>null\<close>. Failures of the operating system are not
  modelled.
\<close>

definition written :: "buffer \<Rightarrow> nat \<Rightarrow> buffer \<Rightarrow> buffer" where
  "written f pos b =
     take pos (f @ replicate (pos - length f) 0) @ b
       @ drop (pos + length b) (f @ replicate (pos - length f) 0)"

definition fs_writeSync ::
  "nat option \<Rightarrow> buffer \<Rightarrow> nat \<Rightarrow> buffer \<Rightarrow> nat \<Rightarrow> nat \<Rightarrow> nat \<Rightarrow> error + buffer \<times> nat" where
  "fs_writeSync d f cur buf off len pos =
     (case d of
        None \<Rightarrow> Inl BadDescriptor
      | Some _ \<Rightarrow>
          if length buf < off + len then Inl OutOfRange
          else if pos \<le> MAX_SAFE_INTEGER
          then Inr (written f pos (take len (drop off buf)), cur)
          else Inr (written f cur (take len (drop off buf)), cur + len))"

definition fs_readSync ::
  "nat option \<Rightarrow> buffer \<Rightarrow> buffer \<Rightarrow> nat \<Rightarrow> nat \<Rightarrow> nat \<Rightarrow> error + buffer" where
  "fs_readSync d f buf off len pos =
     (case d of
        None \<Rightarrow> Inl BadDescriptor
      | Some _ \<Rightarrow>
          if length buf < off + len then Inl OutOfRange
          else if MAX_SAFE_INTEGER < pos then Inl OutOfRange
          else let bytes = take len (drop pos f)
               in Inr (take off buf @ bytes @ drop (off + length bytes) buf))"

section \<open>The page cache: a JavaScript Map\<close>

text \<open>
  A \<open>Map\<close> keeps its entries in insertion order: the list's head is the oldest entry,
  its last element the newest. \<open>set\<close> on a key that is present replaces the value where
  the entry stands; on a new key it appends. \<open>delete\<close> removes the entry;
  \<open>keys().next().value\<close> is the first key.
\<close>

type_synonym js_map = "(page_id \<times> buffer) list"

definition Map_get :: "page_id \<Rightarrow> js_map \<Rightarrow> buffer option" where
  "Map_get k m = map_of m k"

definition Map_delete :: "page_id \<Rightarrow> js_map \<Rightarrow> js_map" where
  "Map_delete k m = filter (\<lambda>e. fst e \<noteq> k) m"

fun Map_set :: "page_id \<Rightarrow> buffer \<Rightarrow> js_map \<Rightarrow> js_map" where
  "Map_set k v [] = [(k, v)]"
| "Map_set k v (e # m) = (if fst e = k then (k, v) # m else e # Map_set k v m)"

definition Map_size :: "js_map \<Rightarrow> nat" where
  "Map_size m = length m"

definition Map_first_key :: "js_map \<Rightarrow> page_id option" where
  "Map_first_key m = (case m of [] \<Rightarrow> None | e # _ \<Rightarrow> Some (fst e))"

text \<open>The keys in order, oldest first; the most recently used key is the last one.\<close>

definition Map_keys :: "js_map \<Rightarrow> page_id list" where
  "Map_keys m = map fst m"

definition mru :: "js_map \<Rightarrow> page_id option" where
  "mru m = (if m = [] then None else Some (fst (last m)))"

text \<open>
  A write through a reference into a buffer the map holds under key \<open>k\<close>: the entry
  keeps its place and shows the new bytes.
\<close>

definition Map_mutate :: "page_id \<Rightarrow> buffer \<Rightarrow> js_map \<Rightarrow> js_map" where
  "Map_mutate k v m = map (\<lambda>e. if fst e = k then (k, v) else e) m"

section \<open>Pager\<close>

text \<open>
  The fields of a \<open>Pager\<close>, and with them the file that the descriptor refers to:
  \<open>fileData\<close>, its bytes, and \<open>fdPos\<close>, the descriptor's current position in it.
  \<open>fd = None\<close> is \<open>this.fd = null\<close>: before \<open>_open\<close> and after \<open>close\<close>.
\<close>

record pager =
  filePath :: string
  fd :: "nat option"
  fileData :: buffer
  fdPos :: nat
  cache :: js_map
  cacheLimit :: nat

definition initNewFile :: "pager \<Rightarrow> (error + unit) \<times> pager" where
  "initNewFile s =
     (let buf = Buffer_alloc PAGE_SIZE;
          buf = Buffer_write buf MAGIC 0
      in case writeUInt32LE buf 1 4 of
           Inl e \<Rightarrow> (Inl e, s)
         | Inr buf \<Rightarrow>
             (case writeUInt32LE buf 0 8 of
                Inl e \<Rightarrow> (Inl e, s)
              | Inr buf \<Rightarrow>
                  (case fs_writeSync (fd s) (fileData s) (fdPos s) buf 0 PAGE_SIZE 0 of
                     Inl e \<Rightarrow> (Inl e, s)
                   | Inr (f, cur) \<Rightarrow> (Inr (), s\<lparr>fileData := f, fdPos := cur\<rparr>))))"

text \<open>
  \<open>_open\<close>: \<open>disk\<close> is what the path holds before the call (\<open>None\<close>: no such file) and
  \<open>d\<close> is the descriptor that \<open>fs.openSync\<close> hands out. Mode \<open>'w+'\<close> creates an empty
  file, mode \<open>'r+'\<close> opens the file as it is; the new descriptor stands at position 0.
\<close>

definition Pager_open :: "pager \<Rightarrow> buffer option \<Rightarrow> nat \<Rightarrow> (error + unit) \<times> pager" where
  "Pager_open s disk d =
     (case disk of
        None \<Rightarrow> initNewFile (s\<lparr>fd := Some d, fileData := [], fdPos := 0\<rparr>)
      | Some bytes \<Rightarrow> (Inr (), s\<lparr>fd := Some d, fileData := bytes, fdPos := 0\<rparr>))"

text \<open>The constructor: \<open>new Pager(filePath)\<close>.\<close>

definition Pager_new :: "string \<Rightarrow> buffer option \<Rightarrow> nat \<Rightarrow> error + pager" where
  "Pager_new path disk d =
     (let s = \<lparr>filePath = path, fd = None, fileData = [], fdPos = 0, cache = [],
                cacheLimit = 1000\<rparr>
      in case Pager_open s disk d of
           (Inl e, _) \<Rightarrow> Inl e
         | (Inr _, s') \<Rightarrow> Inr s')"

text \<open>
  Every operation returns its result, or the error it raises, together with the pager as
  the call leaves it. In \<open>readPage\<close>, \<open>cache.has\<close> followed by \<open>cache.get\<close> is one
  lookup: \<open>Some buf\<close> is the hit, \<open>None\<close> the miss. An error of \<open>fs.readSync\<close> is
  thrown again unless its code is \<open>'EOF'\<close>.
\<close>

definition readPage :: "pager \<Rightarrow> page_id \<Rightarrow> (error + buffer) \<times> pager" where
  "readPage s pageId =
     (case Map_get pageId (cache s) of
        Some buf \<Rightarrow>
          (Inr buf, s\<lparr>cache := Map_set pageId buf (Map_delete pageId (cache s))\<rparr>)
      | None \<Rightarrow>
          (let buf = Buffer_alloc PAGE_SIZE;
               offset = pageId * PAGE_SIZE;
               r = (case fs_readSync (fd s) (fileData s) buf 0 PAGE_SIZE offset of
                      Inl e \<Rightarrow> if e \<noteq> EOF then Inl e else Inr buf
                    | Inr b \<Rightarrow> Inr b)
           in case r of
                Inl e \<Rightarrow> (Inl e, s)
              | Inr buf \<Rightarrow>
                  (let c = Map_set pageId buf (cache s);
                       c = (if cacheLimit s < Map_size c
                            then (case Map_first_key c of
                                    None \<Rightarrow> c
                                  | Some firstKey \<Rightarrow> Map_delete firstKey c)
                            else c)
                   in (Inr buf, s\<lparr>cache := c\<rparr>))))"

definition writePage :: "pager \<Rightarrow> page_id \<Rightarrow> buffer \<Rightarrow> (error + unit) \<times> pager" where
  "writePage s pageId buf =
     (if length buf \<noteq> PAGE_SIZE then (Inl BufferSize, s)
      else let offset = pageId * PAGE_SIZE
           in case fs_writeSync (fd s) (fileData s) (fdPos s) buf 0 PAGE_SIZE offset of
                Inl e \<Rightarrow> (Inl e, s)
              | Inr (f, cur) \<Rightarrow>
                  (Inr (), s\<lparr>fileData := f, fdPos := cur,
                            cache := Map_set pageId buf (cache s)\<rparr>))"

text \<open>The page that \<open>allocPage\<close> builds: next page 0, count 0, free offset 8.\<close>

definition newPage :: "error + buffer" where
  "newPage =
     (case writeUInt32LE (Buffer_alloc PAGE_SIZE) 0 0 of
        Inl e \<Rightarrow> Inl e
      | Inr b \<Rightarrow>
          (case writeUInt16LE b 0 4 of
             Inl e \<Rightarrow> Inl e
           | Inr b \<Rightarrow> writeUInt16LE b 8 6))"

text \<open>
  In \<open>allocPage\<close>, \<open>page0\<close> is the buffer that the cache holds for page 0 after
  \<open>readPage(0)\<close> (if it still holds one): \<open>page0.writeUInt32LE(newTotal, 4)\<close> changes
  that buffer in place, which \<open>Map_mutate\<close> records, before \<open>writePage(0, page0)\<close>
  writes it to the file.
\<close>

definition allocPage :: "pager \<Rightarrow> (error + page_id) \<times> pager" where
  "allocPage s =
     (case readPage s 0 of
        (Inl e, s1) \<Rightarrow> (Inl e, s1)
      | (Inr page0, s1) \<Rightarrow>
          (case readUInt32LE page0 4 of
             Inl e \<Rightarrow> (Inl e, s1)
           | Inr totalPages \<Rightarrow>
               (let newPageId = totalPages;
                    newTotal = totalPages + 1
                in case writeUInt32LE page0 newTotal 4 of
                     Inl e \<Rightarrow> (Inl e, s1)
                   | Inr page0' \<Rightarrow>
                       (let s2 = s1\<lparr>cache := Map_mutate 0 page0' (cache s1)\<rparr>
                        in case writePage s2 0 page0' of
                             (Inl e, s3) \<Rightarrow> (Inl e, s3)
                           | (Inr _, s3) \<Rightarrow>
                               (case newPage of
                                  Inl e \<Rightarrow> (Inl e, s3)
                                | Inr np \<Rightarrow>
                                    (case writePage s3 newPageId np of
                                       (Inl e, s4) \<Rightarrow> (Inl e, s4)
                                     | (Inr _, s4) \<Rightarrow> (Inr newPageId, s4)))))))"

definition close :: "pager \<Rightarrow> (error + unit) \<times> pager" where
  "close s =
     (if fd s \<noteq> None then (Inr (), s\<lparr>fd := None, cache := []\<rparr>)
      else (Inr (), s))"

section \<open>SecurityManager\<close>

record permission =
  p_user :: string
  p_table :: string
  p_action :: string

text \<open>
  The user of a session is absent (\<open>None\<close>) or a string; \<open>!user\<close> holds of an absent user
  and of the empty string.
\<close>

definition falsy :: "string option \<Rightarrow> bool" where
  "falsy user = (case user of None \<Rightarrow> True | Some u \<Rightarrow> u = [])"

text \<open>
  A template literal prints an absent user as \<open>undefined\<close>; \<open>quoted\<close> puts a text
  between apostrophes, as the message of \<open>check\<close> does.
\<close>

definition user_text :: "string option \<Rightarrow> string" where
  "user_text user = (case user of None \<Rightarrow> ''undefined'' | Some u \<Rightarrow> u)"

definition quoted :: "string \<Rightarrow> string" where
  "quoted t = [CHR 0x27] @ t @ [CHR 0x27]"

definition denied_message :: "string option \<Rightarrow> string \<Rightarrow> string \<Rightarrow> string" where
  "denied_message user table action =
     ''POS RONDA: Akses Ditolak! User '' @ quoted (user_text user)
       @ '' tidak punya izin '' @ quoted action @ '' di lahan '' @ quoted table @ ''.''"

definition check :: "permission list \<Rightarrow> string option \<Rightarrow> string \<Rightarrow> string \<Rightarrow> error + bool" where
  "check permissions user table action =
     (if falsy user then Inr True
      else if user = Some ''admin'' then Inr True
      else let hasPerm = list_ex (\<lambda>p.
                 Some (p_user p) = user \<and>
                 (p_table p = table \<or> p_table p = ''*'') \<and>
                 (p_action p = action \<or> p_action p = ''all'')) permissions
           in if \<not> hasPerm then Inl (AccessDenied (denied_message user table action))
              else Inr True)"

section \<open>Observations and test states\<close>

text \<open>
  What the file holds for a page: byte \<open>i\<close> of the file, zero where the file has ended,
  and the \<open>PAGE_SIZE\<close> bytes from position \<open>p * PAGE_SIZE\<close> on.
\<close>

definition file_byte :: "buffer \<Rightarrow> nat \<Rightarrow> byte" where
  "file_byte f i = (if i < length f then f ! i else 0)"

definition file_page :: "buffer \<Rightarrow> page_id \<Rightarrow> buffer" where
  "file_page f p = map (\<lambda>j. file_byte f (p * PAGE_SIZE + j)) [0..<PAGE_SIZE]"

text \<open>
  The total-pages field of the header as the file has it, and as the pager sees it
  (\<open>allocPage\<close> reads it through \<open>readPage(0)\<close>, at offset 4).
\<close>

definition header_total :: "pager \<Rightarrow> error + nat" where
  "header_total s = readUInt32LE (file_page (fileData s) 0) 4"

definition totalPages :: "pager \<Rightarrow> error + nat" where
  "totalPages s = (case fst (readPage s 0) of Inl e \<Rightarrow> Inl e | Inr page0 \<Rightarrow> readUInt32LE page0 4)"

text \<open>
  Every buffer in the cache has \<open>PAGE_SIZE\<close> bytes (\<open>readPage\<close> allocates them so and
  \<open>writePage\<close> refuses any other); the cache agrees with the file; a Map has each key once.
\<close>

definition cache_ok :: "js_map \<Rightarrow> bool" where
  "cache_ok m = list_all (\<lambda>e. length (snd e) = PAGE_SIZE) m"

definition coherent :: "buffer \<Rightarrow> js_map \<Rightarrow> bool" where
  "coherent f m = list_all (\<lambda>e. snd e = file_page f (fst e)) m"

definition pager_inv :: "pager \<Rightarrow> bool" where
  "pager_inv s = (fd s \<noteq> None \<and> distinct (Map_keys (cache s)) \<and> coherent (fileData s) (cache s))"

text \<open>The header page that \<open>_initNewFile\<close> writes: the magic, one page, no table.\<close>

definition header0 :: buffer where
  "header0 = ([0x57, 0x4F, 0x57, 0x4F] @ replicate 4092 0)
               [4 := 1, 5 := 0, 6 := 0, 7 := 0, 8 := 0, 9 := 0, 10 := 0, 11 := 0]"

text \<open>The page that \<open>newPage\<close> evaluates to, byte by byte as the three writes leave it.\<close>

definition empty_page :: buffer where
  "empty_page =
     (Buffer_alloc PAGE_SIZE)[0 := 0, 1 := 0, 2 := 0, 3 := 0, 4 := 0, 5 := 0, 6 := 8, 7 := 0]"

text \<open>A pager on a path that did not exist, and runs of calls that start from it.\<close>

definition fresh_pager :: pager where
  "fresh_pager =
     snd (Pager_open \<lparr>filePath = ''db.sawit'', fd = None, fileData = [], fdPos = 0,
                      cache = [], cacheLimit = 1000\<rparr> None 3)"

definition writePages :: "pager \<Rightarrow> page_id list \<Rightarrow> buffer \<Rightarrow> pager" where
  "writePages s ps buf = foldl (\<lambda>s p. snd (writePage s p buf)) s ps"

definition readPages :: "pager \<Rightarrow> page_id list \<Rightarrow> pager" where
  "readPages s ps = foldl (\<lambda>s p. snd (readPage s p)) s ps"

text \<open>An existing file whose header says that \<open>2^32 - 1\<close> pages are allocated.\<close>

definition full_file :: buffer where
  "full_file = [0x57, 0x4F, 0x57, 0x4F, 0xFF, 0xFF, 0xFF, 0xFF] @ replicate 4088 0"

definition full_pager :: pager where
  "full_pager = \<lparr>filePath = ''db.sawit'', fd = Some 3, fileData = full_file, fdPos = 0,
                  cache = [], cacheLimit = 1000\<rparr>"

text \<open>An existing file that does not start with the magic.\<close>

definition other_file :: buffer where
  "other_file = map of_char ''NOPE'' @ replicate 4092 0"

text \<open>
  The states a pager goes through from a new file, with the highest page id allocated so
  far (page 0, the header, at first). The guard \<open>G\<close> says which \<open>writePage\<close> calls the
  callers make.
\<close>

inductive reachable :: "(pager \<Rightarrow> page_id \<Rightarrow> buffer \<Rightarrow> bool) \<Rightarrow> pager \<Rightarrow> page_id \<Rightarrow> bool"
  for G :: "pager \<Rightarrow> page_id \<Rightarrow> buffer \<Rightarrow> bool" where
  r_new: "Pager_new path None d = Inr s \<Longrightarrow> reachable G s 0"
| r_alloc: "reachable G s h \<Longrightarrow> allocPage s = (Inr pid, s') \<Longrightarrow> reachable G s' (max h pid)"
| r_alloc_fails: "reachable G s h \<Longrightarrow> allocPage s = (Inl e, s') \<Longrightarrow> reachable G s' h"
| r_read: "reachable G s h \<Longrightarrow> readPage s p = (r, s') \<Longrightarrow> reachable G s' h"
| r_write: "reachable G s h \<Longrightarrow> G s p b \<Longrightarrow> writePage s p b = (r, s') \<Longrightarrow> reachable G s' h"

definition any_write :: "pager \<Rightarrow> page_id \<Rightarrow> buffer \<Rightarrow> bool" where
  "any_write s p b = True"

text \<open>
  A write at a safe position that leaves the total-pages field of the header as it is: to
  a page other than 0, or to page 0 with the current total in bytes 4 to 7.
\<close>

definition keeps_total :: "pager \<Rightarrow> page_id \<Rightarrow> buffer \<Rightarrow> bool" where
  "keeps_total s p b =
     (p * PAGE_SIZE \<le> MAX_SAFE_INTEGER \<and> (p = 0 \<longrightarrow> readUInt32LE b 4 = header_total s))"

section \<open>Bytes, buffers and the file\<close>

lemma le32_digits:
  fixes v :: nat
  assumes "v < 2 ^ 32"
  shows "v mod 256 + v div 256 mod 256 * 256 + v div 65536 mod 256 * 65536
           + v div 16777216 mod 256 * 16777216 = v"
proof -
  define a where "a = v div 256"
  define b where "b = a div 256"
  define c where "c = b div 256"
  have va: "v = v mod 256 + a * 256" by (simp add: a_def)
  have ab: "a = a mod 256 + b * 256" by (simp add: b_def)
  have bc: "b = b mod 256 + c * 256" by (simp add: c_def)
  have b': "v div 65536 = b" by (simp add: a_def b_def div_mult2_eq [symmetric])
  have c': "v div 16777216 = c" by (simp add: a_def b_def c_def div_mult2_eq [symmetric])
  have "c < 256" using assms unfolding c' [symmetric] by simp
  then have cc: "c mod 256 = c" by simp
  have "v mod 256 + a mod 256 * 256 + b mod 256 * 65536 + c * 16777216 = v"
    using va ab bc by arith
  then show ?thesis by (simp add: a_def [symmetric] b' c' cc)
qed

lemma unat_byte_of_nat: "unat (of_nat x :: byte) = x mod 256"
  by (simp add: unat_of_nat)

lemma unat_byte_less: "unat (w :: byte) < 256"
  using unsigned_less [of w, where 'a = nat] by simp

lemma readUInt32LE_bound:
  assumes "readUInt32LE buf off = Inr v"
  shows "v < 2 ^ 32"
proof -
  from assms have "v = unat (buf ! off) + unat (buf ! (off + 1)) * 2 ^ 8
                + unat (buf ! (off + 2)) * 2 ^ 16 + unat (buf ! (off + 3)) * 2 ^ 24"
    by (auto simp: readUInt32LE_def split: if_splits)
  with unat_byte_less [of "buf ! off"] unat_byte_less [of "buf ! (off + 1)"]
    unat_byte_less [of "buf ! (off + 2)"] unat_byte_less [of "buf ! (off + 3)"]
  show ?thesis by simp
qed

lemma readUInt32LE_page:
  "length buf = PAGE_SIZE \<Longrightarrow> \<exists>v. readUInt32LE buf 4 = Inr v"
  by (simp add: readUInt32LE_def PAGE_SIZE_def)

lemma writeUInt32LE_read:
  assumes "v < 2 ^ 32" and "off + 4 \<le> length buf"
  shows "\<exists>buf'. writeUInt32LE buf v off = Inr buf' \<and> length buf' = length buf
            \<and> readUInt32LE buf' off = Inr v"
  using assms le32_digits [OF assms(1)]
  by (simp add: writeUInt32LE_def readUInt32LE_def unat_byte_of_nat)

lemma writeUInt32LE_overflow: "2 ^ 32 \<le> v \<Longrightarrow> writeUInt32LE buf v off = Inl OutOfRange"
  by (simp add: writeUInt32LE_def)

lemma length_file_page: "length (file_page f p) = PAGE_SIZE"
  by (simp add: file_page_def)

lemma nth_file_page: "j < PAGE_SIZE \<Longrightarrow> file_page f p ! j = file_byte f (p * PAGE_SIZE + j)"
  by (simp add: file_page_def)

lemma read_zero_padded:
  "take n (drop pos f) @ drop (length (take n (drop pos f))) (replicate n 0)
     = map (\<lambda>j. file_byte f (pos + j)) [0..<n]"
  by (rule nth_equalityI) (auto simp: nth_append file_byte_def)

lemma safe_position: "p * PAGE_SIZE \<le> MAX_SAFE_INTEGER \<longleftrightarrow> p < 2 ^ 41"
  unfolding PAGE_SIZE_def MAX_SAFE_INTEGER_def by simp arith

lemma safe_position_u32: "p < 2 ^ 32 \<Longrightarrow> p * PAGE_SIZE \<le> MAX_SAFE_INTEGER"
  by (simp add: PAGE_SIZE_def MAX_SAFE_INTEGER_def)

lemma safe_position_0: "0 * PAGE_SIZE \<le> MAX_SAFE_INTEGER"
  by simp

lemma fs_readSync_page:
  "p * PAGE_SIZE \<le> MAX_SAFE_INTEGER \<Longrightarrow>
   fs_readSync (Some d) f (Buffer_alloc PAGE_SIZE) 0 PAGE_SIZE (p * PAGE_SIZE) = Inr (file_page f p)"
  using read_zero_padded [of PAGE_SIZE "p * PAGE_SIZE" f]
  by (simp add: fs_readSync_def Buffer_alloc_def file_page_def Let_def)

lemma fs_readSync_unsafe:
  "MAX_SAFE_INTEGER < pos \<Longrightarrow>
   fs_readSync (Some d) f (Buffer_alloc PAGE_SIZE) 0 PAGE_SIZE pos = Inl OutOfRange"
  by (simp add: fs_readSync_def Buffer_alloc_def)

lemma file_page_past_end:
  assumes "length f \<le> p * PAGE_SIZE"
  shows "file_page f p = Buffer_alloc PAGE_SIZE"
  by (rule nth_equalityI)
    (use assms in \<open>simp_all add: length_file_page nth_file_page Buffer_alloc_def file_byte_def\<close>)

lemma file_page_whole:
  assumes "length f = PAGE_SIZE"
  shows "file_page f 0 = f"
  by (rule nth_equalityI)
    (use assms in \<open>simp_all add: length_file_page nth_file_page file_byte_def\<close>)

lemma file_byte_write:
  "length b = n \<Longrightarrow>
   file_byte (take pos (f @ replicate (pos - length f) 0) @ b
              @ drop (pos + n) (f @ replicate (pos - length f) 0)) i
     = (if pos \<le> i \<and> i < pos + n then b ! (i - pos) else file_byte f i)"
  by (auto simp: file_byte_def nth_append min_def)

lemma fs_writeSync_written:
  "length b = PAGE_SIZE \<Longrightarrow> pos \<le> MAX_SAFE_INTEGER \<Longrightarrow>
   fs_writeSync (Some d) f cur b 0 PAGE_SIZE pos = Inr (written f pos b, cur)"
  by (simp add: fs_writeSync_def)

lemma fs_writeSync_unsafe:
  "length b = PAGE_SIZE \<Longrightarrow> MAX_SAFE_INTEGER < pos \<Longrightarrow>
   fs_writeSync (Some d) f cur b 0 PAGE_SIZE pos = Inr (written f cur b, cur + PAGE_SIZE)"
  by (simp add: fs_writeSync_def)

lemma file_byte_written:
  "file_byte (written f pos b) i
     = (if pos \<le> i \<and> i < pos + length b then b ! (i - pos) else file_byte f i)"
  unfolding written_def by (rule file_byte_write) simp

lemma file_page_written_same:
  assumes "length b = PAGE_SIZE"
  shows "file_page (written f (p * PAGE_SIZE) b) p = b"
  by (rule nth_equalityI) (simp_all add: length_file_page nth_file_page file_byte_written assms)

lemma file_page_written_other:
  assumes "length b = PAGE_SIZE" and "q \<noteq> p"
  shows "file_page (written f (p * PAGE_SIZE) b) q = file_page f q"
proof (rule nth_equalityI)
  show "length (file_page (written f (p * PAGE_SIZE) b) q) = length (file_page f q)"
    by (simp add: length_file_page)
next
  fix j assume "j < length (file_page (written f (p * PAGE_SIZE) b) q)"
  then have j: "j < PAGE_SIZE" by (simp add: length_file_page)
  have "\<not> (p * PAGE_SIZE \<le> q * PAGE_SIZE + j \<and> q * PAGE_SIZE + j < p * PAGE_SIZE + PAGE_SIZE)"
    using j assms(2) unfolding PAGE_SIZE_def by arith
  then have "file_byte (written f (p * PAGE_SIZE) b) (q * PAGE_SIZE + j)
               = file_byte f (q * PAGE_SIZE + j)"
    unfolding file_byte_written assms(1) by (rule if_not_P)
  then show "file_page (written f (p * PAGE_SIZE) b) q ! j = file_page f q ! j"
    using j by (simp add: nth_file_page)
qed

section \<open>The Map\<close>

lemma Map_get_set_same: "Map_get k (Map_set k v m) = Some v"
  by (induction m) (auto simp: Map_get_def)

lemma Map_get_set_other: "q \<noteq> k \<Longrightarrow> Map_get q (Map_set k v m) = Map_get q m"
  by (induction m) (auto simp: Map_get_def)


lemma Map_get_append:
  "Map_get q (m @ [(k, v)]) = (case Map_get q m of Some w \<Rightarrow> Some w
                                | None \<Rightarrow> if q = k then Some v else None)"
  by (induction m) (auto simp: Map_get_def)

lemma Map_get_None_keys: "Map_get k m = None \<longleftrightarrow> k \<notin> set (Map_keys m)"
  by (simp add: Map_get_def Map_keys_def map_of_eq_None_iff)

lemma Map_get_Some_mem: "Map_get k m = Some v \<Longrightarrow> (k, v) \<in> set m"
  by (simp add: Map_get_def map_of_SomeD)

lemma Map_set_new: "k \<notin> set (Map_keys m) \<Longrightarrow> Map_set k v m = m @ [(k, v)]"
  by (induction m) (auto simp: Map_keys_def)

lemma Map_keys_set_present: "k \<in> set (Map_keys m) \<Longrightarrow> Map_keys (Map_set k v m) = Map_keys m"
  by (induction m) (auto simp: Map_keys_def)

lemma Map_keys_delete: "Map_keys (Map_delete k m) = filter (\<lambda>q. q \<noteq> k) (Map_keys m)"
  by (induction m) (auto simp: Map_keys_def Map_delete_def)

lemma Map_keys_mutate: "Map_keys (Map_mutate k v m) = Map_keys m"
  by (induction m) (auto simp: Map_keys_def Map_mutate_def)

lemma set_Map_set: "set (Map_set k v m) \<subseteq> insert (k, v) (set m)"
  by (induction m) auto

lemma set_Map_set_distinct:
  "distinct (Map_keys m) \<Longrightarrow> (q, w) \<in> set (Map_set k v m) \<Longrightarrow> q = k \<and> w = v \<or> q \<noteq> k \<and> (q, w) \<in> set m"
proof (induction m)
  case Nil
  then show ?case by simp
next
  case (Cons e m)
  from Cons.prems(1) have d: "distinct (Map_keys m)" and e: "fst e \<notin> fst ` set m"
    by (simp_all add: Map_keys_def)
  show ?case
  proof (cases "fst e = k")
    case True
    with Cons.prems(2) have "(q, w) = (k, v) \<or> (q, w) \<in> set m" by simp
    then show ?thesis
    proof
      assume "(q, w) = (k, v)" then show ?thesis by simp
    next
      assume m: "(q, w) \<in> set m"
      then have qm: "q \<in> fst ` set m" by force
      have "q \<noteq> k" using qm e True by blast
      with m show ?thesis by simp
    qed
  next
    case False
    with Cons.prems(2) have "(q, w) = e \<or> (q, w) \<in> set (Map_set k v m)" by simp
    then show ?thesis
    proof
      assume "(q, w) = e" with False show ?thesis by auto
    next
      assume "(q, w) \<in> set (Map_set k v m)"
      from Cons.IH [OF d this] show ?thesis by auto
    qed
  qed
qed

lemma distinct_Map_set: "distinct (Map_keys m) \<Longrightarrow> distinct (Map_keys (Map_set k v m))"
proof (cases "k \<in> set (Map_keys m)")
  case True
  assume "distinct (Map_keys m)"
  with True show ?thesis by (simp add: Map_keys_set_present)
next
  case False
  assume "distinct (Map_keys m)"
  with False have "distinct (Map_keys (m @ [(k, v)]))" by (simp add: Map_keys_def)
  with False show ?thesis by (simp add: Map_set_new)
qed

lemma distinct_Map_delete: "distinct (Map_keys m) \<Longrightarrow> distinct (Map_keys (Map_delete k m))"
  by (simp add: Map_keys_delete)

lemma set_Map_delete: "set (Map_delete k m) \<subseteq> set m"
  by (auto simp: Map_delete_def)

lemma mru_append: "mru (m @ [(k, v)]) = Some k"
  by (simp add: mru_def)

lemma mru_set_after_delete: "mru (Map_set k v (Map_delete k m)) = Some k"
proof -
  have "k \<notin> set (Map_keys (Map_delete k m))" by (simp add: Map_keys_delete)
  then show ?thesis by (simp add: Map_set_new mru_append)
qed

section \<open>readPage and writePage, case by case\<close>

lemma readPage_hit:
  "Map_get p (cache s) = Some buf \<Longrightarrow>
   readPage s p = (Inr buf, s\<lparr>cache := Map_set p buf (Map_delete p (cache s))\<rparr>)"
  by (simp add: readPage_def)

lemma readPage_miss:
  assumes "fd s = Some d" and "Map_get p (cache s) = None"
    and "p * PAGE_SIZE \<le> MAX_SAFE_INTEGER"
  shows "readPage s p =
           (Inr (file_page (fileData s) p),
            s\<lparr>cache := (let c = cache s @ [(p, file_page (fileData s) p)]
                         in if cacheLimit s < length c then Map_delete (fst (hd c)) c else c)\<rparr>)"
proof -
  from assms(2) have new: "p \<notin> set (Map_keys (cache s))" by (simp add: Map_get_None_keys)
  have first: "Map_first_key (cache s @ [e]) = Some (fst (hd (cache s @ [e])))" for e
    by (cases "cache s") (simp_all add: Map_first_key_def)
  show ?thesis
    using assms(1,2)
    by (simp add: readPage_def fs_readSync_page [OF assms(3)] Let_def Map_set_new [OF new]
        Map_size_def first)
qed

lemma readPage_miss_unsafe:
  assumes "fd s = Some d" and "Map_get p (cache s) = None"
    and "MAX_SAFE_INTEGER < p * PAGE_SIZE"
  shows "readPage s p = (Inl OutOfRange, s)"
  using assms(1,2) by (simp add: readPage_def fs_readSync_unsafe [OF assms(3)] Let_def)

lemma readPage_miss_closed:
  "fd s = None \<Longrightarrow> Map_get p (cache s) = None \<Longrightarrow> readPage s p = (Inl BadDescriptor, s)"
  by (simp add: readPage_def fs_readSync_def Let_def)

lemma writePage_ok:
  "fd s = Some d \<Longrightarrow> length b = PAGE_SIZE \<Longrightarrow> p * PAGE_SIZE \<le> MAX_SAFE_INTEGER \<Longrightarrow>
   writePage s p b =
     (Inr (), s\<lparr>fileData := written (fileData s) (p * PAGE_SIZE) b,
               cache := Map_set p b (cache s)\<rparr>)"
  by (simp add: writePage_def fs_writeSync_written Let_def)

lemma writePage_unsafe:
  "fd s = Some d \<Longrightarrow> length b = PAGE_SIZE \<Longrightarrow> MAX_SAFE_INTEGER < p * PAGE_SIZE \<Longrightarrow>
   writePage s p b =
     (Inr (), s\<lparr>fileData := written (fileData s) (fdPos s) b, fdPos := fdPos s + PAGE_SIZE,
               cache := Map_set p b (cache s)\<rparr>)"
  by (simp add: writePage_def fs_writeSync_unsafe Let_def)

lemma writePage_open:
  assumes "fd s = Some d" and "length b = PAGE_SIZE"
  shows "fst (writePage s p b) = Inr ()"
    and "cache (snd (writePage s p b)) = Map_set p b (cache s)"
proof -
  show "fst (writePage s p b) = Inr ()"
    using writePage_ok [OF assms, of p] writePage_unsafe [OF assms, of p]
    by (cases "p * PAGE_SIZE \<le> MAX_SAFE_INTEGER") simp_all
  show "cache (snd (writePage s p b)) = Map_set p b (cache s)"
    using writePage_ok [OF assms, of p] writePage_unsafe [OF assms, of p]
    by (cases "p * PAGE_SIZE \<le> MAX_SAFE_INTEGER") simp_all
qed

lemma writePage_wrong_size:
  "length b \<noteq> PAGE_SIZE \<Longrightarrow> writePage s p b = (Inl BufferSize, s)"
  by (simp add: writePage_def)

lemma writePage_closed:
  "fd s = None \<Longrightarrow> length b = PAGE_SIZE \<Longrightarrow> writePage s p b = (Inl BadDescriptor, s)"
  by (simp add: writePage_def fs_writeSync_def Let_def)

lemma readPage_keeps:
  "fd (snd (readPage s p)) = fd s" "fileData (snd (readPage s p)) = fileData s"
  "cacheLimit (snd (readPage s p)) = cacheLimit s" "fdPos (snd (readPage s p)) = fdPos s"
  by (auto simp: readPage_def Let_def split: option.splits sum.splits)

lemma writePage_keeps:
  "fd (snd (writePage s p b)) = fd s" "cacheLimit (snd (writePage s p b)) = cacheLimit s"
  by (auto simp: writePage_def Let_def split: option.splits sum.splits)

text \<open>A miss on an open pager either reads the page or, at an unsafe position, raises.\<close>

lemma readPage_miss_cases:
  assumes "fd s = Some d" and "Map_get p (cache s) = None"
  shows "readPage s p = (Inl OutOfRange, s)
         \<or> readPage s p =
           (Inr (file_page (fileData s) p),
            s\<lparr>cache := (let c = cache s @ [(p, file_page (fileData s) p)]
                         in if cacheLimit s < length c then Map_delete (fst (hd c)) c else c)\<rparr>)"
  using readPage_miss [OF assms] readPage_miss_unsafe [OF assms]
  by (cases "p * PAGE_SIZE \<le> MAX_SAFE_INTEGER") simp_all

lemma set_cache_readPage:
  assumes "fd s = Some d"
  shows "set (cache (snd (readPage s p))) \<subseteq> insert (p, file_page (fileData s) p) (set (cache s))"
proof (cases "Map_get p (cache s)")
  case (Some buf)
  have "set (Map_set p buf (Map_delete p (cache s))) \<subseteq> insert (p, buf) (set (cache s))"
    using set_Map_set [of p buf "Map_delete p (cache s)"] set_Map_delete [of p "cache s"] by auto
  moreover have "(p, buf) \<in> set (cache s)" using Some by (rule Map_get_Some_mem)
  ultimately show ?thesis using readPage_hit [OF Some] by auto
next
  case None
  let ?c = "cache s @ [(p, file_page (fileData s) p)]"
  from readPage_miss_cases [OF assms None]
  have "cache (snd (readPage s p)) = cache s
        \<or> cache (snd (readPage s p)) = Map_delete (fst (hd ?c)) ?c
        \<or> cache (snd (readPage s p)) = ?c"
    by (auto simp: Let_def)
  moreover have "set (Map_delete (fst (hd ?c)) ?c) \<subseteq> set ?c" by (rule set_Map_delete)
  ultimately show ?thesis by auto
qed

lemma distinct_cache_readPage:
  assumes "fd s = Some d" and "distinct (Map_keys (cache s))"
  shows "distinct (Map_keys (cache (snd (readPage s p))))"
proof (cases "Map_get p (cache s)")
  case (Some buf)
  show ?thesis using readPage_hit [OF Some] assms(2)
    by (simp add: distinct_Map_set distinct_Map_delete)
next
  case None
  then have "p \<notin> set (Map_keys (cache s))" by (simp add: Map_get_None_keys)
  with assms(2) have "distinct (Map_keys (cache s @ [(p, file_page (fileData s) p)]))"
    by (simp add: Map_keys_def)
  then show ?thesis using readPage_miss_cases [OF assms(1) None] assms(2)
    by (auto simp: Let_def distinct_Map_delete)
qed

lemma coherent_iff: "coherent f m \<longleftrightarrow> (\<forall>(k, v) \<in> set m. v = file_page f k)"
  by (auto simp: coherent_def list_all_iff)

lemma cache_ok_iff: "cache_ok m \<longleftrightarrow> (\<forall>(k, v) \<in> set m. length v = PAGE_SIZE)"
  by (auto simp: cache_ok_def list_all_iff)


lemma cache_ok_readPage:
  assumes "fd s = Some d" and "cache_ok (cache s)"
  shows "cache_ok (cache (snd (readPage s p)))"
  using set_cache_readPage [OF assms(1), of p] assms(2)
  by (auto simp: cache_ok_iff length_file_page)

lemma pager_inv_readPage:
  assumes "pager_inv s"
  shows "pager_inv (snd (readPage s p))"
proof -
  from assms obtain d where d: "fd s = Some d" by (auto simp: pager_inv_def)
  have "coherent (fileData s) (cache (snd (readPage s p)))"
    using set_cache_readPage [OF d, of p] assms by (auto simp: coherent_iff pager_inv_def)
  with assms d distinct_cache_readPage [OF d, of p] show ?thesis
    by (simp add: pager_inv_def readPage_keeps)
qed

lemma readPage_coherent_result:
  assumes "pager_inv s" and "p * PAGE_SIZE \<le> MAX_SAFE_INTEGER"
  shows "fst (readPage s p) = Inr (file_page (fileData s) p)"
proof -
  from assms obtain d where d: "fd s = Some d" by (auto simp: pager_inv_def)
  show ?thesis
  proof (cases "Map_get p (cache s)")
    case (Some buf)
    then have "(p, buf) \<in> set (cache s)" by (rule Map_get_Some_mem)
    with assms have "buf = file_page (fileData s) p" by (auto simp: pager_inv_def coherent_iff)
    with readPage_hit [OF Some] show ?thesis by simp
  next
    case None
    from readPage_miss [OF d None assms(2)] show ?thesis by simp
  qed
qed

lemma readPage_result_length:
  assumes "fd s = Some d" and "cache_ok (cache s)" and "p * PAGE_SIZE \<le> MAX_SAFE_INTEGER"
  shows "\<exists>buf. fst (readPage s p) = Inr buf \<and> length buf = PAGE_SIZE"
proof (cases "Map_get p (cache s)")
  case (Some buf)
  then have "(p, buf) \<in> set (cache s)" by (rule Map_get_Some_mem)
  with assms(2) have "length buf = PAGE_SIZE" by (auto simp: cache_ok_iff)
  with readPage_hit [OF Some] show ?thesis by simp
next
  case None
  from readPage_miss [OF assms(1) None assms(3)] show ?thesis by (simp add: length_file_page)
qed

lemma pager_inv_writePage:
  assumes "pager_inv s" and "length b = PAGE_SIZE" and "p * PAGE_SIZE \<le> MAX_SAFE_INTEGER"
  shows "pager_inv (snd (writePage s p b))"
proof -
  from assms obtain d where d: "fd s = Some d" by (auto simp: pager_inv_def)
  let ?f = "written (fileData s) (p * PAGE_SIZE) b"
  have w: "writePage s p b = (Inr (), s\<lparr>fileData := ?f, cache := Map_set p b (cache s)\<rparr>)"
    using d assms(2,3) by (rule writePage_ok)
  have dist: "distinct (Map_keys (cache s))" using assms(1) by (simp add: pager_inv_def)
  have "coherent ?f (Map_set p b (cache s))"
    unfolding coherent_iff
  proof (clarify)
    fix q v assume "(q, v) \<in> set (Map_set p b (cache s))"
    from set_Map_set_distinct [OF dist this]
    show "v = file_page ?f q"
    proof
      assume "q = p \<and> v = b"
      then show ?thesis by (simp add: file_page_written_same assms(2))
    next
      assume a: "q \<noteq> p \<and> (q, v) \<in> set (cache s)"
      with assms(1) have "v = file_page (fileData s) q" by (auto simp: pager_inv_def coherent_iff)
      with a show ?thesis by (simp add: file_page_written_other assms(2))
    qed
  qed
  with w d dist show ?thesis by (simp add: pager_inv_def distinct_Map_set)
qed

section \<open>A new file\<close>

lemma Buffer_write_MAGIC:
  "Buffer_write (Buffer_alloc PAGE_SIZE) MAGIC 0 = [0x57, 0x4F, 0x57, 0x4F] @ replicate 4092 0"
  by (simp add: Buffer_write_def Buffer_alloc_def PAGE_SIZE_def MAGIC_def)

lemma length_header0: "length header0 = PAGE_SIZE"
  by (simp add: header0_def PAGE_SIZE_def)

lemma initNewFile_open:
  "initNewFile \<lparr>filePath = path, fd = Some d, fileData = [], fdPos = 0, cache = [],
                 cacheLimit = 1000\<rparr>
     = (Inr (), \<lparr>filePath = path, fd = Some d, fileData = header0, fdPos = 0, cache = [],
                  cacheLimit = 1000\<rparr>)"
  apply (simp add: initNewFile_def Let_def Buffer_write_MAGIC)
  apply (simp add: writeUInt32LE_def fs_writeSync_def written_def PAGE_SIZE_def header0_def
      MAX_SAFE_INTEGER_def)
  done

lemma Pager_new_None:
  "Pager_new path None d
     = Inr \<lparr>filePath = path, fd = Some d, fileData = header0, fdPos = 0, cache = [],
            cacheLimit = 1000\<rparr>"
  by (simp add: Pager_new_def Pager_open_def initNewFile_open)

lemma Pager_new_Some:
  "Pager_new path (Some bytes) d
     = Inr \<lparr>filePath = path, fd = Some d, fileData = bytes, fdPos = 0, cache = [],
            cacheLimit = 1000\<rparr>"
  by (simp add: Pager_new_def Pager_open_def)

lemma fresh_pager_eq:
  "fresh_pager = \<lparr>filePath = ''db.sawit'', fd = Some 3, fileData = header0, fdPos = 0,
                   cache = [], cacheLimit = 1000\<rparr>"
  by (simp add: fresh_pager_def Pager_open_def initNewFile_open)

lemma header0_total: "readUInt32LE header0 4 = Inr 1"
  by (simp add: readUInt32LE_def header0_def nth_append)

lemma header0_magic: "take 4 header0 = map of_char MAGIC"
  by (simp add: header0_def MAGIC_def)

lemma pager_inv_new: "Pager_new path None d = Inr s \<Longrightarrow> pager_inv s"
  by (auto simp: Pager_new_None pager_inv_def Map_keys_def coherent_def)

lemma header_total_new: "Pager_new path None d = Inr s \<Longrightarrow> header_total s = Inr 1"
  by (auto simp: Pager_new_None header_total_def file_page_whole length_header0 header0_total)

section \<open>Runs of reads\<close>

lemma pager_inv_readPages: "pager_inv s \<Longrightarrow> pager_inv (readPages s qs)"
  unfolding readPages_def by (induction qs arbitrary: s) (simp_all add: pager_inv_readPage)






lemma other_file_magic: "take 4 other_file \<noteq> map of_char MAGIC"
  by (simp add: other_file_def MAGIC_def)

section \<open>The order and the size of the cache\<close>

lemma readPage_hit_mru:
  "Map_get p (cache s) = Some buf \<Longrightarrow> mru (cache (snd (readPage s p))) = Some p"
  by (simp add: readPage_hit mru_set_after_delete)

lemma readPage_miss_cache:
  assumes "fd s = Some d" and "Map_get p (cache s) = None" and "0 < cacheLimit s"
    and "p * PAGE_SIZE \<le> MAX_SAFE_INTEGER"
  shows "\<exists>c. cache (snd (readPage s p)) = c @ [(p, file_page (fileData s) p)]
             \<and> set (Map_keys c) \<subseteq> set (Map_keys (cache s))"
proof -
  let ?e = "(p, file_page (fileData s) p)"
  let ?c = "cache s @ [?e]"
  show ?thesis
  proof (cases "cacheLimit s < length ?c")
    case False
    with readPage_miss [OF assms(1,2,4)] show ?thesis by (simp add: Let_def)
  next
    case True
    with assms(3) have ne: "cache s \<noteq> []" by (cases "cache s") simp_all
    then have "fst (hd ?c) \<in> set (Map_keys (cache s))" by (cases "cache s") (simp_all add: Map_keys_def)
    with assms(2) have "fst (hd ?c) \<noteq> p" by (auto simp: Map_get_None_keys)
    then have "Map_delete (fst (hd ?c)) ?c = Map_delete (fst (hd ?c)) (cache s) @ [?e]"
      by (simp add: Map_delete_def)
    moreover have "set (Map_keys (Map_delete (fst (hd ?c)) (cache s))) \<subseteq> set (Map_keys (cache s))"
      by (auto simp: Map_keys_delete)
    ultimately show ?thesis using True readPage_miss [OF assms(1,2,4)] by (simp add: Let_def)
  qed
qed

lemma readPage_miss_mru:
  assumes "fd s = Some d" and "Map_get p (cache s) = None" and "0 < cacheLimit s"
    and "p * PAGE_SIZE \<le> MAX_SAFE_INTEGER"
  shows "mru (cache (snd (readPage s p))) = Some p"
  using readPage_miss_cache [OF assms] by (auto simp: mru_append)

lemma readPage_miss_cached:
  assumes "fd s = Some d" and "Map_get p (cache s) = None" and "0 < cacheLimit s"
    and "p * PAGE_SIZE \<le> MAX_SAFE_INTEGER"
  shows "Map_get p (cache (snd (readPage s p))) = Some (file_page (fileData s) p)"
proof -
  from readPage_miss_cache [OF assms] obtain c
    where c: "cache (snd (readPage s p)) = c @ [(p, file_page (fileData s) p)]"
      and k: "set (Map_keys c) \<subseteq> set (Map_keys (cache s))" by blast
  from assms(2) k have "Map_get p c = None" by (auto simp: Map_get_None_keys)
  then show ?thesis by (simp add: c Map_get_append)
qed

lemma writePage_new_mru:
  assumes "fd s = Some d" and "length b = PAGE_SIZE" and "Map_get p (cache s) = None"
  shows "mru (cache (snd (writePage s p b))) = Some p"
proof -
  from assms(3) have "p \<notin> set (Map_keys (cache s))" by (simp add: Map_get_None_keys)
  then show ?thesis by (simp add: writePage_open [OF assms(1,2)] Map_set_new mru_append)
qed

lemma writePage_cached_keeps_order:
  assumes "fd s = Some d" and "length b = PAGE_SIZE" and "Map_get p (cache s) \<noteq> None"
  shows "Map_keys (cache (snd (writePage s p b))) = Map_keys (cache s)"
proof -
  from assms(3) have "p \<in> set (Map_keys (cache s))" by (simp add: Map_get_None_keys)
  then show ?thesis by (simp add: writePage_open [OF assms(1,2)] Map_keys_set_present)
qed

lemma length_Map_delete_present:
  "k \<in> set (Map_keys m) \<Longrightarrow> length (Map_delete k m) < length m"
proof -
  assume "k \<in> set (Map_keys m)"
  then obtain e where "e \<in> set m" and "\<not> fst e \<noteq> k" by (auto simp: Map_keys_def)
  then show ?thesis unfolding Map_delete_def by (rule length_filter_less)
qed

lemma readPage_keeps_cache_bound:
  assumes "fd s = Some d" and "Map_size (cache s) \<le> cacheLimit s"
  shows "Map_size (cache (snd (readPage s p))) \<le> cacheLimit s"
proof (cases "Map_get p (cache s)")
  case (Some buf)
  then have "p \<in> set (Map_keys (cache s))" using Map_get_None_keys [of p "cache s"] by simp
  then have "length (Map_delete p (cache s)) < length (cache s)" by (rule length_Map_delete_present)
  moreover have "p \<notin> set (Map_keys (Map_delete p (cache s)))" by (simp add: Map_keys_delete)
  ultimately show ?thesis using assms(2) readPage_hit [OF Some]
    by (simp add: Map_set_new Map_size_def)
next
  case None
  let ?c = "cache s @ [(p, file_page (fileData s) p)]"
  have "fst (hd ?c) \<in> set (Map_keys ?c)" by (cases "cache s") (simp_all add: Map_keys_def)
  then have "length (Map_delete (fst (hd ?c)) ?c) < length ?c" by (rule length_Map_delete_present)
  with assms(2) readPage_miss_cases [OF assms(1) None] show ?thesis
    by (auto simp: Let_def Map_size_def)
qed

lemma writePages_keys:
  assumes "fd s = Some d" and "length b = PAGE_SIZE"
    and "distinct ps" and "set ps \<inter> set (Map_keys (cache s)) = {}"
  shows "Map_keys (cache (writePages s ps b)) = Map_keys (cache s) @ ps
         \<and> cacheLimit (writePages s ps b) = cacheLimit s"
  using assms(1,3,4)
proof (induction ps arbitrary: s)
  case Nil
  then show ?case by (simp add: writePages_def)
next
  case (Cons p ps)
  let ?s' = "snd (writePage s p b)"
  from Cons.prems have new: "p \<notin> set (Map_keys (cache s))" by auto
  have k: "Map_keys (cache ?s') = Map_keys (cache s) @ [p]"
    by (simp add: writePage_open [OF Cons.prems(1) assms(2)] Map_set_new [OF new] Map_keys_def)
  have "fd ?s' = Some d" by (simp add: writePage_keeps Cons.prems(1))
  moreover have "distinct ps" using Cons.prems(2) by simp
  moreover have "set ps \<inter> set (Map_keys (cache ?s')) = {}" using Cons.prems(2,3) by (auto simp: k)
  ultimately have "Map_keys (cache (writePages ?s' ps b)) = Map_keys (cache ?s') @ ps
         \<and> cacheLimit (writePages ?s' ps b) = cacheLimit ?s'"
    by (rule Cons.IH)
  moreover have "writePages s (p # ps) b = writePages ?s' ps b" by (simp add: writePages_def)
  ultimately show ?case by (simp add: k writePage_keeps)
qed

lemma writePages_cache:
  assumes "fd s = Some d" and "length b = PAGE_SIZE"
  shows "cache (writePages s ps b) = foldl (\<lambda>c p. Map_set p b c) (cache s) ps"
  using assms(1)
proof (induction ps arbitrary: s)
  case Nil
  then show ?case by (simp add: writePages_def)
next
  case (Cons p ps)
  let ?s' = "snd (writePage s p b)"
  have "fd ?s' = Some d" by (simp add: writePage_keeps Cons.prems)
  then have "cache (writePages ?s' ps b) = foldl (\<lambda>c p. Map_set p b c) (cache ?s') ps"
    by (rule Cons.IH)
  moreover have "writePages s (p # ps) b = writePages ?s' ps b" by (simp add: writePages_def)
  ultimately show ?case by (simp add: writePage_open [OF Cons.prems assms(2)])
qed

section \<open>allocPage\<close>

lemma length_empty_page: "length empty_page = PAGE_SIZE"
  by (simp add: empty_page_def Buffer_alloc_def)

lemma newPage_eq: "newPage = Inr empty_page"
  by (simp add: newPage_def writeUInt32LE_def writeUInt16LE_def Buffer_alloc_def PAGE_SIZE_def
      empty_page_def flip: numeral_2_eq_2)

lemma empty_page_fields:
  "readUInt32LE empty_page 0 = Inr 0" "readUInt16LE empty_page 4 = Inr 0"
  "readUInt16LE empty_page 6 = Inr 8"
  by (simp_all add: empty_page_def Buffer_alloc_def PAGE_SIZE_def readUInt32LE_def readUInt16LE_def
      flip: numeral_2_eq_2)

lemma Map_mutate_absent: "k \<notin> set (Map_keys m) \<Longrightarrow> Map_mutate k v m = m"
  by (induction m) (auto simp: Map_mutate_def Map_keys_def)

lemma Map_set_mutate:
  "distinct (Map_keys m) \<Longrightarrow> Map_set k v (Map_mutate k v m) = Map_set k v m"
proof (induction m)
  case Nil
  then show ?case by (simp add: Map_mutate_def)
next
  case (Cons e m)
  show ?case
  proof (cases "fst e = k")
    case True
    with Cons.prems have "k \<notin> set (Map_keys m)" by (auto simp: Map_keys_def)
    then have "Map_mutate k v m = m" by (rule Map_mutate_absent)
    moreover have "Map_mutate k v (e # m) = (k, v) # Map_mutate k v m"
      using True by (simp add: Map_mutate_def)
    ultimately show ?thesis using True by simp
  next
    case False
    from Cons.prems have "distinct (Map_keys m)" by (simp add: Map_keys_def)
    then have "Map_set k v (Map_mutate k v m) = Map_set k v m" by (rule Cons.IH)
    moreover have "Map_mutate k v (e # m) = e # Map_mutate k v m"
      using False by (simp add: Map_mutate_def)
    ultimately show ?thesis using False by simp
  qed
qed

lemma allocPage_ok:
  assumes "fd s = Some d" and "readPage s 0 = (Inr page0, s1)" and "length page0 = PAGE_SIZE"
    and "readUInt32LE page0 4 = Inr T" and "writeUInt32LE page0 (T + 1) 4 = Inr hdr"
    and "length hdr = PAGE_SIZE"
  shows "allocPage s =
           (Inr T, s1\<lparr>fileData := written (written (fileData s) 0 hdr) (T * PAGE_SIZE) empty_page,
                      cache := Map_set T empty_page (Map_set 0 hdr (Map_mutate 0 hdr (cache s1)))\<rparr>)"
proof -
  have s1: "s1 = snd (readPage s 0)" by (simp add: assms(2))
  have o1: "fd s1 = Some d" and f1: "fileData s1 = fileData s"
    by (simp_all add: s1 readPage_keeps assms(1))
  let ?s2 = "s1\<lparr>cache := Map_mutate 0 hdr (cache s1)\<rparr>"
  let ?s3 = "s1\<lparr>fileData := written (fileData s) 0 hdr,
                cache := Map_set 0 hdr (Map_mutate 0 hdr (cache s1))\<rparr>"
  have safe: "T * PAGE_SIZE \<le> MAX_SAFE_INTEGER"
    using readUInt32LE_bound [OF assms(4)] by (rule safe_position_u32)
  have w0: "writePage ?s2 0 hdr = (Inr (), ?s3)"
    using writePage_ok [of ?s2 d hdr 0] by (simp add: o1 f1 assms(6))
  have w1: "writePage ?s3 T empty_page =
      (Inr (), s1\<lparr>fileData := written (written (fileData s) 0 hdr) (T * PAGE_SIZE) empty_page,
                 cache := Map_set T empty_page (Map_set 0 hdr (Map_mutate 0 hdr (cache s1)))\<rparr>)"
    using writePage_ok [of ?s3 d empty_page T] safe by (simp add: o1 length_empty_page)
  have h: "writeUInt32LE page0 (Suc T) 4 = Inr hdr" using assms(5) by simp
  show ?thesis
    unfolding allocPage_def assms(2)
    by (simp add: assms(4) h Let_def w0 newPage_eq w1 f1)
qed

lemma allocPage_overflow:
  assumes "readPage s 0 = (Inr page0, s1)" and "readUInt32LE page0 4 = Inr T"
    and "2 ^ 32 \<le> T + 1"
  shows "allocPage s = (Inl OutOfRange, s1)"
proof -
  have "writeUInt32LE page0 (Suc T) 4 = Inl OutOfRange"
    using writeUInt32LE_overflow [OF assms(3)] by simp
  then show ?thesis unfolding allocPage_def assms(1) by (simp add: assms(2) Let_def)
qed


lemma totalPages_coherent: "pager_inv s \<Longrightarrow> totalPages s = header_total s"
  by (simp add: totalPages_def header_total_def readPage_coherent_result)

lemma header_total_written_same:
  "length b = PAGE_SIZE \<Longrightarrow>
   header_total (s\<lparr>fileData := written f 0 b, cache := c\<rparr>) = readUInt32LE b 4"
  using file_page_written_same [of b f 0] by (simp add: header_total_def)

lemma header_total_written_other:
  "length b = PAGE_SIZE \<Longrightarrow> 0 < p \<Longrightarrow>
   header_total (s\<lparr>fileData := written f (p * PAGE_SIZE) b, cache := c\<rparr>)
     = readUInt32LE (file_page f 0) 4"
  using file_page_written_other [of b 0 p f] by (simp add: header_total_def)

lemma allocPage_inv:
  assumes "pager_inv s" and "header_total s = Inr T" and "0 < T"
  shows "(T + 1 < 2 ^ 32 \<longrightarrow>
            fst (allocPage s) = Inr T \<and> pager_inv (snd (allocPage s))
            \<and> header_total (snd (allocPage s)) = Inr (T + 1))
       \<and> (2 ^ 32 \<le> T + 1 \<longrightarrow>
            fst (allocPage s) = Inl OutOfRange \<and> pager_inv (snd (allocPage s))
            \<and> header_total (snd (allocPage s)) = Inr T)"
proof -
  from assms(1) obtain d where d: "fd s = Some d" by (auto simp: pager_inv_def)
  let ?page0 = "file_page (fileData s) 0"
  let ?s1 = "snd (readPage s 0)"
  have r: "readPage s 0 = (Inr ?page0, ?s1)"
    using readPage_coherent_result [OF assms(1) safe_position_0] by (simp add: prod_eq_iff)
  have inv1: "pager_inv ?s1" using assms(1) by (rule pager_inv_readPage)
  have f1: "fileData ?s1 = fileData s" by (simp add: readPage_keeps)
  have t: "readUInt32LE ?page0 4 = Inr T" using assms(2) by (simp add: header_total_def)
  have t1: "header_total ?s1 = Inr T" using assms(2) by (simp add: header_total_def f1)
  have safe: "T * PAGE_SIZE \<le> MAX_SAFE_INTEGER"
    using readUInt32LE_bound [OF t] by (rule safe_position_u32)
  show ?thesis
  proof (cases "T + 1 < 2 ^ 32")
    case False
    then have "2 ^ 32 \<le> T + 1" by simp
    from allocPage_overflow [OF r t this] inv1 t1 False show ?thesis by simp
  next
    case True
    have "4 + 4 \<le> length ?page0" by (simp add: length_file_page PAGE_SIZE_def)
    from writeUInt32LE_read [OF True this] obtain hdr
      where h: "writeUInt32LE ?page0 (T + 1) 4 = Inr hdr" and lh: "length hdr = PAGE_SIZE"
        and rh: "readUInt32LE hdr 4 = Inr (T + 1)"
      by (auto simp: length_file_page)
    let ?c = "Map_set T empty_page (Map_set 0 hdr (cache ?s1))"
    let ?f = "written (written (fileData s) 0 hdr) (T * PAGE_SIZE) empty_page"
    have dist: "distinct (Map_keys (cache ?s1))" using inv1 by (simp add: pager_inv_def)
    have a: "allocPage s = (Inr T, ?s1\<lparr>fileData := ?f, cache := ?c\<rparr>)"
      using allocPage_ok [OF d r length_file_page t h lh] by (simp add: Map_set_mutate [OF dist])
    have d1: "fd ?s1 = Some d" by (simp add: readPage_keeps d)
    let ?s3 = "snd (writePage ?s1 0 hdr)"
    have w0: "writePage ?s1 0 hdr
                = (Inr (), ?s1\<lparr>fileData := written (fileData s) 0 hdr,
                               cache := Map_set 0 hdr (cache ?s1)\<rparr>)"
      using writePage_ok [OF d1 lh safe_position_0] by (simp add: f1)
    have inv3: "pager_inv ?s3" using inv1 lh safe_position_0 by (rule pager_inv_writePage)
    have d3: "fd ?s3 = Some d" by (simp add: writePage_keeps d1)
    have w1: "writePage ?s3 T empty_page = (Inr (), ?s1\<lparr>fileData := ?f, cache := ?c\<rparr>)"
      using writePage_ok [OF d3 length_empty_page safe] by (simp add: w0)
    have "pager_inv (snd (writePage ?s3 T empty_page))"
      using inv3 length_empty_page safe by (rule pager_inv_writePage)
    then have inv4: "pager_inv (?s1\<lparr>fileData := ?f, cache := ?c\<rparr>)" by (simp add: w1)
    have "file_page (written (fileData s) 0 hdr) 0 = hdr"
      using file_page_written_same [OF lh, of "fileData s" 0] by simp
    then have "header_total (?s1\<lparr>fileData := ?f, cache := ?c\<rparr>) = Inr (T + 1)"
      using header_total_written_other [OF length_empty_page assms(3)] rh by simp
    with a inv4 True show ?thesis by simp
  qed
qed

lemma reachable_inv:
  assumes "reachable keeps_total s h"
  shows "pager_inv s \<and> header_total s = Inr (h + 1)"
  using assms
proof (induction rule: reachable.induct)
  case (r_new path d s)
  then show ?case by (simp add: pager_inv_new header_total_new)
next
  case (r_alloc s h pid s')
  from allocPage_inv [of s "h + 1"] r_alloc.IH r_alloc.hyps(2)
  show ?case by (cases "h + 1 + 1 < (2::nat) ^ 32") auto
next
  case (r_alloc_fails s h e s')
  from allocPage_inv [of s "h + 1"] r_alloc_fails.IH r_alloc_fails.hyps(2)
  show ?case by (cases "h + 1 + 1 < (2::nat) ^ 32") auto
next
  case (r_read s h p r s')
  then have s': "s' = snd (readPage s p)" by simp
  from r_read.IH show ?case
    by (simp add: s' pager_inv_readPage header_total_def readPage_keeps)
next
  case (r_write s h p b r s')
  from r_write.IH obtain d where d: "fd s = Some d" by (auto simp: pager_inv_def)
  show ?case
  proof (cases "length b = PAGE_SIZE")
    case False
    with r_write.hyps(3) r_write.IH show ?thesis by (simp add: writePage_wrong_size)
  next
    case True
    from r_write.hyps(3) have s': "s' = snd (writePage s p b)" by simp
    from r_write.hyps(2) have safe: "p * PAGE_SIZE \<le> MAX_SAFE_INTEGER"
      by (simp add: keeps_total_def)
    note w = writePage_ok [OF d True safe]
    have inv: "pager_inv s'" unfolding s' using r_write.IH True safe
      by (simp add: pager_inv_writePage)
    have "header_total s' = Inr (h + 1)"
    proof (cases "p = 0")
      case True
      with r_write.hyps(2) have "readUInt32LE b 4 = header_total s" by (simp add: keeps_total_def)
      with r_write.IH show ?thesis
        using header_total_written_same [OF \<open>length b = PAGE_SIZE\<close>, where s = s and f = "fileData s"]
        unfolding s' w by (simp add: True)
    next
      case False
      then have "0 < p" by simp
      from header_total_written_other [OF \<open>length b = PAGE_SIZE\<close> this, where s = s and f = "fileData s"]
        r_write.IH
      show ?thesis
        by (simp add: s' w header_total_def)
    qed
    with inv show ?thesis by simp
  qed
qed

section \<open>The test states\<close>

lemma fresh_pager_new: "Pager_new ''db.sawit'' None 3 = Inr fresh_pager"
  by (simp add: Pager_new_None fresh_pager_eq)

lemma fresh_pager_inv: "pager_inv fresh_pager"
  using fresh_pager_new by (rule pager_inv_new)

lemma fresh_pager_total: "header_total fresh_pager = Inr 1"
  using fresh_pager_new by (rule header_total_new)

lemma length_full_file: "length full_file = PAGE_SIZE"
  by (simp add: full_file_def PAGE_SIZE_def)

lemma full_file_total: "readUInt32LE full_file 4 = Inr 4294967295"
  by (simp add: readUInt32LE_def full_file_def)

lemma full_pager_read:
  "readPage full_pager 0 = (Inr full_file, full_pager\<lparr>cache := [(0, full_file)]\<rparr>)"
proof -
  have "fd full_pager = Some 3" and "Map_get 0 (cache full_pager) = None"
    by (simp_all add: full_pager_def Map_get_def)
  from readPage_miss [OF this safe_position_0] show ?thesis
    by (simp add: full_pager_def file_page_whole length_full_file Map_delete_def)
qed

lemma zero_page_total: "readUInt32LE (Buffer_alloc PAGE_SIZE) 4 = Inr 0"
  by (simp add: readUInt32LE_def Buffer_alloc_def PAGE_SIZE_def)

lemma length_zero_page: "length (Buffer_alloc PAGE_SIZE) = PAGE_SIZE"
  by (simp add: Buffer_alloc_def)


text \<open>
  A page id from \<open>2^41\<close> on gives a position that is no safe integer: the write goes to
  the descriptor's position, which is the start of the file on a new pager, and so over the
  header.
\<close>

lemma large_page_write_overwrites_header:
  "fst (writePage fresh_pager (2 ^ 41) (Buffer_alloc PAGE_SIZE)) = Inr ()
   \<and> header_total (snd (writePage fresh_pager (2 ^ 41) (Buffer_alloc PAGE_SIZE))) = Inr 0"
proof -
  have o: "fd fresh_pager = Some 3" by (simp add: fresh_pager_eq)
  have u: "MAX_SAFE_INTEGER < 2 ^ 41 * PAGE_SIZE"
    by (simp add: MAX_SAFE_INTEGER_def PAGE_SIZE_def)
  have "file_page (written header0 0 (Buffer_alloc PAGE_SIZE)) 0 = Buffer_alloc PAGE_SIZE"
    using file_page_written_same [OF length_zero_page, of header0 0] by simp
  moreover have f: "fileData fresh_pager = header0" "fdPos fresh_pager = 0"
    by (simp_all add: fresh_pager_eq)
  ultimately show ?thesis
    unfolding writePage_unsafe [OF o length_zero_page u] header_total_def
    by (simp add: f zero_page_total)
qed



section \<open>Claims\<close>

text \<open>
  C9. \<open>close()\<close> is idempotent: the first call on an open pager closes the descriptor and
  clears the cache; every further call, however many there are, raises nothing and leaves the
  pager as the first call left it.
\<close>

theorem close_idempotent:
  "fst (close s) = Inr ()
   \<and> (fd s \<noteq> None \<longrightarrow> fd (snd (close s)) = None \<and> cache (snd (close s)) = [])
   \<and> (\<forall>n. close (((\<lambda>t. snd (close t)) ^^ n) (snd (close s))) = (Inr (), snd (close s)))"
proof -
  have once: "close (snd (close s)) = (Inr (), snd (close s))"
    by (simp add: close_def)
  have "((\<lambda>t. snd (close t)) ^^ n) (snd (close s)) = snd (close s)" for n
    by (induction n) (simp_all add: once)
  then show ?thesis by (simp add: once) (simp add: close_def)
qed

theorem close_idempotent_witness:
  "full_pager \<noteq> snd (close full_pager)
   \<and> fd (snd (close full_pager)) = None
   \<and> close (snd (close (snd (close (snd (close full_pager))))))
       = (Inr (), snd (close full_pager))"
proof -
  have o: "fd full_pager \<noteq> None" by (simp add: full_pager_def)
  have n: "(\<lambda>t. snd (close t)) ^^ 2 = (\<lambda>t. snd (close (snd (close t))))"
    by (simp add: numeral_2_eq_2 fun_eq_iff)
  from close_idempotent [of full_pager] o
  have "fd (snd (close full_pager)) = None"
    and "close (((\<lambda>t. snd (close t)) ^^ 2) (snd (close full_pager))) = (Inr (), snd (close full_pager))"
    by blast+
  with o show ?thesis unfolding n by auto
qed

text \<open>
  C10. \<open>SecurityManager.check(user, table, action)\<close> returns true, whatever the
  permissions are, when the user is absent or empty or is \<open>admin\<close>; for every other user
  it returns true exactly when a stored permission has that user, the table or \<open>*\<close>, and
  the action or \<open>all\<close>, and throws the access-denied error otherwise.
\<close>

theorem check_spec:
  "check perms user tbl act =
     (if falsy user \<or> user = Some ''admin'' then Inr True
      else if (\<exists>p \<in> set perms. Some (p_user p) = user
                 \<and> (p_table p = tbl \<or> p_table p = ''*'')
                 \<and> (p_action p = act \<or> p_action p = ''all''))
           then Inr True
           else Inl (AccessDenied (denied_message user tbl act)))"
  by (auto simp: check_def list_ex_iff)

theorem check_spec_witness:
  "check [\<lparr>p_user = ''bob'', p_table = ''*'', p_action = ''read''\<rparr>] (Some ''bob'') ''kebun'' ''read''
     = Inr True
   \<and> check [\<lparr>p_user = ''bob'', p_table = ''*'', p_action = ''read''\<rparr>] (Some ''bob'') ''kebun'' ''write''
     = Inl (AccessDenied (denied_message (Some ''bob'') ''kebun'' ''write''))
   \<and> check [] None ''kebun'' ''write'' = Inr True
   \<and> check [] (Some ''admin'') ''kebun'' ''write'' = Inr True"
  using check_spec [of "[\<lparr>p_user = ''bob'', p_table = ''*'', p_action = ''read''\<rparr>]" "Some ''bob''" "''kebun''" "''read''"]
    check_spec [of "[\<lparr>p_user = ''bob'', p_table = ''*'', p_action = ''read''\<rparr>]" "Some ''bob''" "''kebun''" "''write''"]
    check_spec [of "[]" None "''kebun''" "''write''"]
    check_spec [of "[]" "Some ''admin''" "''kebun''" "''write''"]
  by (simp add: falsy_def)

text \<open>
  C8 (as the code has it). On an open pager, \<open>writePage(p, b)\<close> raises if and only if
  \<open>b\<close> does not have exactly 4096 bytes; on any pager it raises its size error if and
  only if \<open>b\<close> does not have exactly 4096 bytes; and whenever \<open>writePage\<close> raises,
  the pager, its file and its cache are what they were before the call. (On a closed
  pager a buffer of 4096 bytes raises too, in \<open>fs.writeSync\<close>.)
\<close>

theorem writePage_raises_iff_wrong_size:
  "(fst (writePage s p b) = Inl BufferSize \<longleftrightarrow> length b \<noteq> PAGE_SIZE)
   \<and> (fd s \<noteq> None \<longrightarrow> (isl (fst (writePage s p b)) \<longleftrightarrow> length b \<noteq> PAGE_SIZE))
   \<and> (isl (fst (writePage s p b)) \<longrightarrow> snd (writePage s p b) = s)"
proof (cases "length b = PAGE_SIZE")
  case False
  with writePage_wrong_size [OF False, of s p] show ?thesis by simp
next
  case True
  show ?thesis
  proof (cases "fd s")
    case None
    with writePage_closed [OF None True, of p] True show ?thesis by simp
  next
    case (Some d)
    with writePage_open(1) [OF Some True, of p] True show ?thesis by simp
  qed
qed

theorem writePage_raises_iff_wrong_size_witness:
  "fd full_pager \<noteq> None
   \<and> writePage full_pager 2 (Buffer_alloc 100) = (Inl BufferSize, full_pager)
   \<and> \<not> isl (fst (writePage full_pager 2 (Buffer_alloc PAGE_SIZE)))"
proof -
  have o: "fd full_pager \<noteq> None" by (simp add: full_pager_def)
  have l: "length (Buffer_alloc 100) \<noteq> PAGE_SIZE" "length (Buffer_alloc PAGE_SIZE) = PAGE_SIZE"
    by (simp_all add: Buffer_alloc_def PAGE_SIZE_def)
  from writePage_raises_iff_wrong_size [of full_pager 2 "Buffer_alloc 100"]
    writePage_raises_iff_wrong_size [of full_pager 2 "Buffer_alloc PAGE_SIZE"] o l
  have "fst (writePage full_pager 2 (Buffer_alloc 100)) = Inl BufferSize"
    and "snd (writePage full_pager 2 (Buffer_alloc 100)) = full_pager"
    and "\<not> isl (fst (writePage full_pager 2 (Buffer_alloc PAGE_SIZE)))"
    by auto
  with o show ?thesis by (simp add: prod_eq_iff)
qed

theorem writePage_closed_counterexample:
  "fd (snd (close fresh_pager)) = None
   \<and> length (Buffer_alloc PAGE_SIZE) = PAGE_SIZE
   \<and> writePage (snd (close fresh_pager)) 2 (Buffer_alloc PAGE_SIZE)
       = (Inl BadDescriptor, snd (close fresh_pager))"
proof -
  have c: "fd (snd (close fresh_pager)) = None" by (simp add: close_def)
  from writePage_closed [OF c length_zero_page, of 2] c length_zero_page show ?thesis by simp
qed




text \<open>
  C3 (as the code has it). \<open>open\<close> on an existing file does not look at the magic: whatever
  the bytes of the file are, it returns an open pager on the file as it is, with an empty
  cache. The magic is only written, into the header of a file that \<open>open\<close> creates.
\<close>

theorem open_existing_file:
  "Pager_new path (Some bytes) d
     = Inr \<lparr>filePath = path, fd = Some d, fileData = bytes, fdPos = 0, cache = [],
            cacheLimit = 1000\<rparr>
   \<and> (\<exists>s. Pager_new path None d = Inr s \<and> take 4 (fileData s) = map of_char MAGIC)"
  by (simp add: Pager_new_Some Pager_new_None header0_magic)

theorem open_wrong_magic_counterexample:
  "take 4 other_file \<noteq> map of_char MAGIC
   \<and> Pager_new ''db.sawit'' (Some other_file) 3
       = Inr \<lparr>filePath = ''db.sawit'', fd = Some 3, fileData = other_file, fdPos = 0,
              cache = [], cacheLimit = 1000\<rparr>"
  by (simp add: other_file_magic Pager_new_def Pager_open_def)

text \<open>
  C6 (as the code has it). On an open pager, \<open>readPage(p)\<close> of an uncached page with
  \<open>p\<close> below \<open>2^41\<close> does not raise, whatever the header's total is: it returns the 4096
  bytes that the file holds at \<open>p * 4096\<close>, zero where the file has ended, so a buffer of
  zeros when the page lies at or after the end of the file; and when the cap of the cache
  is at least 1 it leaves that buffer in the cache, as the most recently used entry. From
  \<open>2^41\<close> on the position is no safe integer: the read raises the \<open>RangeError\<close> of
  \<open>fs.readSync\<close> and leaves the pager as it was.
\<close>

theorem readPage_uncached:
  assumes "fd s \<noteq> None" and "Map_get p (cache s) = None"
  shows "(p * PAGE_SIZE \<le> MAX_SAFE_INTEGER \<longrightarrow>
            fst (readPage s p) = Inr (file_page (fileData s) p)
            \<and> length (file_page (fileData s) p) = PAGE_SIZE
            \<and> (length (fileData s) \<le> p * PAGE_SIZE \<longrightarrow>
                 fst (readPage s p) = Inr (Buffer_alloc PAGE_SIZE))
            \<and> (0 < cacheLimit s \<longrightarrow>
                 Map_get p (cache (snd (readPage s p))) = Some (file_page (fileData s) p)
                 \<and> mru (cache (snd (readPage s p))) = Some p))
         \<and> (MAX_SAFE_INTEGER < p * PAGE_SIZE \<longrightarrow> readPage s p = (Inl OutOfRange, s))"
proof -
  from assms obtain d where d: "fd s = Some d" by auto
  show ?thesis
  proof (cases "p * PAGE_SIZE \<le> MAX_SAFE_INTEGER")
    case True
    from readPage_miss [OF d assms(2) True]
    have "fst (readPage s p) = Inr (file_page (fileData s) p)" by simp
    moreover have "0 < cacheLimit s \<Longrightarrow>
        Map_get p (cache (snd (readPage s p))) = Some (file_page (fileData s) p)
        \<and> mru (cache (snd (readPage s p))) = Some p"
      using readPage_miss_cached [OF d assms(2) _ True] readPage_miss_mru [OF d assms(2) _ True]
      by simp
    ultimately show ?thesis using True by (simp add: length_file_page file_page_past_end)
  next
    case False
    then have "MAX_SAFE_INTEGER < p * PAGE_SIZE" by simp
    from readPage_miss_unsafe [OF d assms(2) this] False show ?thesis by simp
  qed
qed

theorem readPage_uncached_witness:
  "fd full_pager \<noteq> None \<and> Map_get 9 (cache full_pager) = None
   \<and> 9 * PAGE_SIZE \<le> MAX_SAFE_INTEGER \<and> 0 < cacheLimit full_pager
   \<and> length (fileData full_pager) \<le> 9 * PAGE_SIZE
   \<and> fst (readPage full_pager 9) = Inr (Buffer_alloc PAGE_SIZE)
   \<and> mru (cache (snd (readPage full_pager 9))) = Some 9
   \<and> MAX_SAFE_INTEGER < 2 ^ 41 * PAGE_SIZE
   \<and> readPage full_pager (2 ^ 41) = (Inl OutOfRange, full_pager)"
proof -
  have o: "fd full_pager \<noteq> None" and c: "Map_get q (cache full_pager) = None"
    and l: "length (fileData full_pager) \<le> 9 * PAGE_SIZE" and k: "0 < cacheLimit full_pager"
    for q
    by (simp_all add: full_pager_def Map_get_def full_file_def PAGE_SIZE_def)
  have i: "9 * PAGE_SIZE \<le> MAX_SAFE_INTEGER" by (simp add: safe_position)
  have u: "MAX_SAFE_INTEGER < 2 ^ 41 * PAGE_SIZE"
    by (simp add: MAX_SAFE_INTEGER_def PAGE_SIZE_def)
  from readPage_uncached [OF o c, of 9] readPage_uncached [OF o c, of "2 ^ 41"] o c l k i u
  show ?thesis by blast
qed

theorem readPage_past_total_counterexample:
  "totalPages fresh_pager = Inr 1 \<and> Map_get 5 (cache fresh_pager) = None
   \<and> fst (readPage fresh_pager 5) = Inr (Buffer_alloc PAGE_SIZE)"
proof -
  have o: "fd fresh_pager = Some 3" by (simp add: fresh_pager_eq)
  have c: "Map_get p (cache fresh_pager) = None" for p by (simp add: fresh_pager_eq Map_get_def)
  have f: "fileData fresh_pager = header0" by (simp add: fresh_pager_eq)
  have i: "5 * PAGE_SIZE \<le> MAX_SAFE_INTEGER" by (simp add: safe_position)
  have "fst (readPage fresh_pager 0) = Inr header0"
    by (simp add: readPage_miss [OF o c safe_position_0] f file_page_whole length_header0)
  then have t: "totalPages fresh_pager = Inr 1" by (simp add: totalPages_def header0_total)
  have "length (fileData fresh_pager) \<le> 5 * PAGE_SIZE" by (simp add: f length_header0)
  then have "fst (readPage fresh_pager 5) = Inr (Buffer_alloc PAGE_SIZE)"
    by (simp add: readPage_miss [OF o c i] file_page_past_end)
  with t c show ?thesis by simp
qed

text \<open>
  C4 (the code at the failing input). On a new pager, pages 1 and 2 are written and then
  page 1, which is cached, is written again: \<open>Map.set\<close> on a key that is present leaves the
  entry in its place, so the cache's order is still 1, 2 and the most recently used entry
  is page 2, not the page 1 that was just written.
\<close>

theorem writePage_cached_not_promoted:
  "Map_keys (cache (writePages fresh_pager [1, 2, 1] (Buffer_alloc PAGE_SIZE))) = [1, 2]
   \<and> mru (cache (writePages fresh_pager [1, 2, 1] (Buffer_alloc PAGE_SIZE))) = Some 2"
proof -
  let ?z = "Buffer_alloc PAGE_SIZE"
  have z: "length ?z = PAGE_SIZE" by (simp add: Buffer_alloc_def)
  have o: "fd fresh_pager = Some 3" by (simp add: fresh_pager_eq)
  have "cache (writePages fresh_pager [1, 2, 1] ?z) = [(1, ?z), (2, ?z)]"
    unfolding writePages_cache [OF o z] by (simp add: fresh_pager_eq)
  then show ?thesis by (simp add: Map_keys_def mru_def)
qed

text \<open>
  C5 (the code at the failing input). On a new pager, whose cap is 1000, the 1001 pages
  1 to 1001 are written: \<open>writePage\<close> adds each to the cache and evicts none, so the cache
  ends with 1001 entries.
\<close>

theorem writePage_cache_exceeds_limit:
  "cacheLimit (writePages fresh_pager [1..<1002] (Buffer_alloc PAGE_SIZE)) = 1000
   \<and> Map_size (cache (writePages fresh_pager [1..<1002] (Buffer_alloc PAGE_SIZE))) = 1001"
proof -
  let ?z = "Buffer_alloc PAGE_SIZE"
  have z: "length ?z = PAGE_SIZE" by (simp add: Buffer_alloc_def)
  have o: "fd fresh_pager = Some 3" by (simp add: fresh_pager_eq)
  have e: "set [1..<1002] \<inter> set (Map_keys (cache fresh_pager)) = {}"
    by (simp add: fresh_pager_eq Map_keys_def)
  have "Map_keys (cache (writePages fresh_pager [1..<1002] ?z))
          = Map_keys (cache fresh_pager) @ [1..<1002]
        \<and> cacheLimit (writePages fresh_pager [1..<1002] ?z) = cacheLimit fresh_pager"
    using o z _ e by (rule writePages_keys) simp
  then have "length (Map_keys (cache (writePages fresh_pager [1..<1002] ?z))) = 1001"
    and "cacheLimit (writePages fresh_pager [1..<1002] ?z) = 1000"
    by (simp_all add: fresh_pager_eq Map_keys_def)
  then show ?thesis by (simp add: Map_size_def Map_keys_def)
qed

text \<open>
  C1 (as the code has it). On an open pager whose header says \<open>T\<close> pages, with
  \<open>T + 1\<close> below \<open>2^32\<close>, \<open>allocPage()\<close> returns \<open>T\<close>; it persists a header whose
  total is \<open>T + 1\<close> and then writes, at page \<open>T\<close>, the empty data page (next page 0,
  count 0, free offset 8), which the file and the cache hold afterwards; when \<open>T\<close> is not 0
  the header in the file and in the cache still says \<open>T + 1\<close> afterwards.
\<close>

theorem allocPage_spec:
  assumes "fd s \<noteq> None" and "cache_ok (cache s)" and "totalPages s = Inr T"
    and "T + 1 < 2 ^ 32"
  shows "fst (allocPage s) = Inr T
         \<and> (\<exists>s2. header_total s2 = Inr (T + 1)
                \<and> writePage s2 T empty_page = (Inr (), snd (allocPage s)))
         \<and> newPage = Inr empty_page
         \<and> readUInt32LE empty_page 0 = Inr 0
         \<and> readUInt16LE empty_page 4 = Inr 0
         \<and> readUInt16LE empty_page 6 = Inr 8
         \<and> file_page (fileData (snd (allocPage s))) T = empty_page
         \<and> Map_get T (cache (snd (allocPage s))) = Some empty_page
         \<and> (0 < T \<longrightarrow> header_total (snd (allocPage s)) = Inr (T + 1)
                       \<and> totalPages (snd (allocPage s)) = Inr (T + 1))"
proof -
  from assms(1) obtain d where d: "fd s = Some d" by auto
  from readPage_result_length [OF d assms(2) safe_position_0] obtain page0
    where p0: "fst (readPage s 0) = Inr page0" and l0: "length page0 = PAGE_SIZE" by auto
  obtain s1 where r: "readPage s 0 = (Inr page0, s1)" using p0 by (cases "readPage s 0") simp
  have t: "readUInt32LE page0 4 = Inr T" using assms(3) by (simp add: totalPages_def p0)
  have safe: "T * PAGE_SIZE \<le> MAX_SAFE_INTEGER"
    using readUInt32LE_bound [OF t] by (rule safe_position_u32)
  have "4 + 4 \<le> length page0" by (simp add: l0 PAGE_SIZE_def)
  from writeUInt32LE_read [OF assms(4) this] obtain hdr
    where h: "writeUInt32LE page0 (T + 1) 4 = Inr hdr" and lh: "length hdr = PAGE_SIZE"
      and rh: "readUInt32LE hdr 4 = Inr (T + 1)"
    by (auto simp: l0)
  have d1: "fd s1 = Some d" using r readPage_keeps(1) [of s 0] d by simp
  let ?c3 = "Map_set 0 hdr (Map_mutate 0 hdr (cache s1))"
  let ?s3 = "s1\<lparr>fileData := written (fileData s) 0 hdr, cache := ?c3\<rparr>"
  let ?f = "written (written (fileData s) 0 hdr) (T * PAGE_SIZE) empty_page"
  let ?s4 = "s1\<lparr>fileData := ?f, cache := Map_set T empty_page ?c3\<rparr>"
  have a: "allocPage s = (Inr T, ?s4)" by (rule allocPage_ok [OF d r l0 t h lh])
  have h3: "header_total ?s3 = Inr (T + 1)"
    using header_total_written_same [OF lh, where s = s1 and f = "fileData s" and c = ?c3] rh
    by simp
  have w: "writePage ?s3 T empty_page = (Inr (), ?s4)"
    using writePage_ok [of ?s3 d empty_page T] safe by (simp add: d1 length_empty_page)
  have page: "file_page (fileData ?s4) T = empty_page"
    by (simp add: file_page_written_same length_empty_page)
  have cached: "Map_get T (cache ?s4) = Some empty_page" by (simp add: Map_get_set_same)
  have after: "header_total ?s4 = Inr (T + 1) \<and> totalPages ?s4 = Inr (T + 1)" if "0 < T"
  proof -
    have "file_page (written (fileData s) 0 hdr) 0 = hdr"
      using file_page_written_same [OF lh, of "fileData s" 0] by simp
    then have ht: "header_total ?s4 = Inr (T + 1)"
      using header_total_written_other [OF length_empty_page that,
          where s = s1 and f = "written (fileData s) 0 hdr"] rh
      by simp
    have "Map_get 0 (cache ?s4) = Some hdr"
      using that by (simp add: Map_get_set_other Map_get_set_same)
    then have "fst (readPage ?s4 0) = Inr hdr" by (simp add: readPage_hit)
    then have "totalPages ?s4 = Inr (T + 1)" by (simp add: totalPages_def rh)
    with ht show ?thesis by simp
  qed
  have ex: "\<exists>s2. header_total s2 = Inr (T + 1) \<and> writePage s2 T empty_page = (Inr (), ?s4)"
    using h3 w by blast
  show ?thesis
    unfolding a fst_conv snd_conv
    using ex page cached after by (simp add: newPage_eq empty_page_fields)
qed

theorem allocPage_spec_witness:
  "fd fresh_pager \<noteq> None \<and> cache_ok (cache fresh_pager) \<and> totalPages fresh_pager = Inr 1
   \<and> fst (allocPage fresh_pager) = Inr 1
   \<and> file_page (fileData (snd (allocPage fresh_pager))) 1 = empty_page
   \<and> header_total (snd (allocPage fresh_pager)) = Inr 2
   \<and> totalPages (snd (allocPage fresh_pager)) = Inr 2"
proof -
  have o: "fd fresh_pager \<noteq> None" and c: "cache_ok (cache fresh_pager)"
    by (simp_all add: fresh_pager_eq cache_ok_def)
  have t: "totalPages fresh_pager = Inr 1"
    by (simp add: totalPages_coherent fresh_pager_inv fresh_pager_total)
  have b: "(1::nat) + 1 < 2 ^ 32" by simp
  from allocPage_spec [OF o c t b] o c t show ?thesis by simp
qed

theorem allocPage_overflow_counterexample:
  "Pager_new ''db.sawit'' (Some full_file) 3 = Inr full_pager
   \<and> totalPages full_pager = Inr 4294967295
   \<and> fst (allocPage full_pager) = Inl OutOfRange
   \<and> fileData (snd (allocPage full_pager)) = full_file"
proof -
  have n: "Pager_new ''db.sawit'' (Some full_file) 3 = Inr full_pager"
    by (simp add: Pager_new_Some full_pager_def)
  have t: "totalPages full_pager = Inr 4294967295"
    by (simp add: totalPages_def full_pager_read full_file_total)
  have "allocPage full_pager = (Inl OutOfRange, full_pager\<lparr>cache := [(0, full_file)]\<rparr>)"
    by (rule allocPage_overflow [OF full_pager_read full_file_total]) simp
  with n t show ?thesis by (simp add: full_pager_def)
qed

text \<open>
  C7 (as the code has it). In every state reached from a newly created file by
  \<open>allocPage\<close>, \<open>readPage\<close> and those \<open>writePage\<close> calls that have a page id below
  \<open>2^41\<close> and leave the total-pages field of page 0 as it is (a write to another page, or
  a write to page 0 whose bytes 4 to 7 hold the current total), the header's total, in the
  file and as the pager reads it, is the highest page id allocated so far plus 1.
\<close>

theorem total_pages_is_highest_plus_one:
  assumes "reachable keeps_total s h"
  shows "header_total s = Inr (h + 1) \<and> totalPages s = Inr (h + 1)"
  using reachable_inv [OF assms] by (simp add: totalPages_coherent)

theorem total_pages_is_highest_plus_one_witness:
  "reachable keeps_total (snd (writePage (snd (allocPage fresh_pager)) 1 header0)) 1
   \<and> header_total (snd (writePage (snd (allocPage fresh_pager)) 1 header0)) = Inr 2
   \<and> totalPages (snd (writePage (snd (allocPage fresh_pager)) 1 header0)) = Inr 2"
proof -
  let ?s1 = "snd (allocPage fresh_pager)"
  let ?s2 = "snd (writePage ?s1 1 header0)"
  have r0: "reachable keeps_total fresh_pager 0"
    using fresh_pager_new by (rule r_new)
  have "fst (allocPage fresh_pager) = Inr 1"
    using allocPage_inv [OF fresh_pager_inv fresh_pager_total] by simp
  then have "allocPage fresh_pager = (Inr 1, ?s1)" by (simp add: prod_eq_iff)
  with r0 have "reachable keeps_total ?s1 (max 0 1)" by (rule r_alloc)
  then have r1: "reachable keeps_total ?s1 1" by simp
  have g: "keeps_total ?s1 1 header0"
    by (simp add: keeps_total_def PAGE_SIZE_def MAX_SAFE_INTEGER_def)
  have "writePage ?s1 1 header0 = (fst (writePage ?s1 1 header0), ?s2)" by simp
  with r1 g have r2: "reachable keeps_total ?s2 1" by (rule r_write)
  from total_pages_is_highest_plus_one [OF r2] r2 show ?thesis by simp
qed

theorem header_overwritten_counterexample:
  "reachable any_write (snd (writePage fresh_pager 0 (Buffer_alloc PAGE_SIZE))) 0
   \<and> header_total (snd (writePage fresh_pager 0 (Buffer_alloc PAGE_SIZE))) = Inr 0
   \<and> totalPages (snd (writePage fresh_pager 0 (Buffer_alloc PAGE_SIZE))) = Inr 0"
proof -
  let ?z = "Buffer_alloc PAGE_SIZE"
  let ?s = "snd (writePage fresh_pager 0 ?z)"
  have z: "length ?z = PAGE_SIZE" by (simp add: Buffer_alloc_def)
  have o: "fd fresh_pager = Some 3" by (simp add: fresh_pager_eq)
  have r0: "reachable any_write fresh_pager 0"
    using fresh_pager_new by (rule r_new)
  have g: "any_write fresh_pager 0 ?z" by (simp add: any_write_def)
  have "writePage fresh_pager 0 ?z = (fst (writePage fresh_pager 0 ?z), ?s)" by simp
  with r0 g have r: "reachable any_write ?s 0" by (rule r_write)
  have h: "header_total ?s = Inr 0"
    using header_total_written_same [OF z, where s = fresh_pager and f = "fileData fresh_pager"]
    by (simp add: writePage_ok [OF o z safe_position_0] zero_page_total)
  have "pager_inv ?s" using fresh_pager_inv z safe_position_0 by (rule pager_inv_writePage)
  then have "totalPages ?s = Inr 0" using h by (simp add: totalPages_coherent)
  with r h show ?thesis by simp
qed

end
